theory Spec2Isabelle
  imports Main "HOL-Library.Word" "HOL-Library.Sublist"
begin

section \<open>JavaScript strings\<close>

text \<open>
  A JavaScript string is a finite sequence of UTF-16 code units. Indices, lengths and the
  brace counter are JavaScript numbers that only ever hold small integers here; they are
  modelled as \<open>int\<close>, with \<open>- 1\<close> as the "not found" value the source tests for.
\<close>

type_synonym code_unit = "16 word"
type_synonym jsstring = "code_unit list"

definition js :: "string \<Rightarrow> jsstring" where
  "js s = map of_char s"

definition lbrace :: code_unit where "lbrace = 0x7B"
definition rbrace :: code_unit where "rbrace = 0x7D"
definition dquote :: code_unit where "dquote = 0x22"
definition backslash :: code_unit where "backslash = 0x5C"

text \<open>
  \<open>String.prototype.trim\<close> removes the code units of the ECMAScript productions
  WhiteSpace and LineTerminator from both ends.
\<close>

definition isWhiteSpace :: "code_unit \<Rightarrow> bool" where
  "isWhiteSpace c = (c \<in> set [0x9, 0xA, 0xB, 0xC, 0xD, 0x20, 0xA0, 0x1680, 0x2000, 0x2001,
      0x2002, 0x2003, 0x2004, 0x2005, 0x2006, 0x2007, 0x2008, 0x2009, 0x200A, 0x2028, 0x2029,
      0x202F, 0x205F, 0x3000, 0xFEFF])"

definition trim :: "jsstring \<Rightarrow> jsstring" where
  "trim s = rev (dropWhile isWhiteSpace (rev (dropWhile isWhiteSpace s)))"

text \<open>
  \<open>s.indexOf(c)\<close> and \<open>s.lastIndexOf(c)\<close> for a one-unit search string: the first and
  the last index holding \<open>c\<close>, or \<open>- 1\<close>.
\<close>

primrec indexOf :: "jsstring \<Rightarrow> code_unit \<Rightarrow> int" where
  "indexOf [] c = - 1"
| "indexOf (x # xs) c =
     (if x = c then 0 else (if indexOf xs c = - 1 then - 1 else indexOf xs c + 1))"

primrec lastIndexOf :: "jsstring \<Rightarrow> code_unit \<Rightarrow> int" where
  "lastIndexOf [] c = - 1"
| "lastIndexOf (x # xs) c =
     (if lastIndexOf xs c \<noteq> - 1 then lastIndexOf xs c + 1 else (if x = c then 0 else - 1))"

text \<open>
  \<open>s.substring(start, end)\<close>: both arguments are clamped to \<open>[0, length]\<close>, and they
  are swapped when the first exceeds the second.
\<close>

definition substring :: "jsstring \<Rightarrow> int \<Rightarrow> int \<Rightarrow> jsstring" where
  "substring s intStart intEnd =
     (let len = int (length s);
          finalStart = min (max intStart 0) len;
          finalEnd = min (max intEnd 0) len;
          from = min finalStart finalEnd;
          to = max finalStart finalEnd
      in take (nat (to - from)) (drop (nat from) s))"

section \<open>The extractor\<close>

text \<open>
  The \<open>for\<close> loop of \<open>extractJson\<close>, with its locals as arguments. \<open>jsonString[i]\<close> is a
  string of one code unit, and each test compares it with a string literal. The literal of
  the escape test is written with four backslashes in the source, which denotes a string
  of two backslash code units. The loop returns \<open>endIndex\<close>: the index where it breaks, or
  the initial \<open>- 1\<close> when \<open>i\<close> reaches the length. A loop that did not return would be
  \<open>None\<close>.
\<close>

partial_function (option) scan :: "jsstring \<Rightarrow> int \<Rightarrow> int \<Rightarrow> bool \<Rightarrow> bool \<Rightarrow> int option" where
  "scan jsonString i braceCount inString escape =
     (if i < int (length jsonString) then
        (if escape then scan jsonString (i + 1) braceCount inString False
         else if [jsonString ! nat i] = [backslash, backslash]
           then scan jsonString (i + 1) braceCount inString True
         else if [jsonString ! nat i] = [dquote]
           then scan jsonString (i + 1) braceCount (\<not> inString) escape
         else if \<not> inString then
           (if [jsonString ! nat i] = [lbrace]
              then scan jsonString (i + 1) (braceCount + 1) inString escape
            else if [jsonString ! nat i] = [rbrace] then
              (if braceCount - 1 = 0 then Some i
               else scan jsonString (i + 1) (braceCount - 1) inString escape)
            else scan jsonString (i + 1) braceCount inString escape)
         else scan jsonString (i + 1) braceCount inString escape)
      else Some (- 1))"

declare scan.simps [code]

text \<open>
  \<open>extractJson\<close> itself. The calls of \<open>console.log\<close> write to the console only and are
  left out.
\<close>

definition extractJson :: "jsstring \<Rightarrow> jsstring option" where
  "extractJson text =
     (let jsonString = trim text;
          firstBrace = indexOf jsonString lbrace
      in if firstBrace \<noteq> - 1 then
           (case scan jsonString firstBrace 0 False False of
              None \<Rightarrow> None
            | Some endIndex \<Rightarrow>
                if endIndex \<noteq> - 1 then Some (substring jsonString firstBrace (endIndex + 1))
                else
                  (let lastBrace = lastIndexOf jsonString rbrace
                   in if lastBrace \<noteq> - 1
                      then Some (substring jsonString firstBrace (lastBrace + 1))
                      else Some jsonString))
         else Some jsonString)"

section \<open>Auxiliary notions for the statements and proofs\<close>

text \<open>
  The same loop as a recursion over the code units that are still to be read, for an escape
  flag that is clear. The result is the offset of the closing brace where the loop breaks,
  counted from the head of the list, or \<open>None\<close> when the list is exhausted.
  Lemma \<open>scan_eq\<close> below proves that \<open>scan\<close> computes exactly this.
\<close>

fun scan_list :: "jsstring \<Rightarrow> int \<Rightarrow> bool \<Rightarrow> nat option" where
  "scan_list [] d q = None"
| "scan_list (c # cs) d q =
     (if c = dquote then map_option Suc (scan_list cs d (\<not> q))
      else if q then map_option Suc (scan_list cs d q)
      else if c = lbrace then map_option Suc (scan_list cs (d + 1) q)
      else if c = rbrace then (if d - 1 = 0 then Some 0 else map_option Suc (scan_list cs (d - 1) q))
      else map_option Suc (scan_list cs d q))"

definition end_index :: "nat \<Rightarrow> nat option \<Rightarrow> int" where
  "end_index i r = (case r of None \<Rightarrow> - 1 | Some k \<Rightarrow> int (i + k))"

text \<open>
  \<open>slice s a b\<close> is the code units of \<open>s\<close> at the indices \<open>a \<le> i < b\<close>; the statements
  below use it to say which part of the trimmed text is returned.
\<close>

definition slice :: "jsstring \<Rightarrow> int \<Rightarrow> int \<Rightarrow> jsstring" where
  "slice s a b = take (nat (b - a)) (drop (nat a) s)"

text \<open>
  The glossary of the specification calls a string balanced when its brace nesting, tracked
  outside of string literals, returns to zero net depth by its final character. The
  tracking is the one of the specification's algorithm: a quote that is not escaped
  toggles the string flag, a backslash escapes the next code unit, and braces count only
  outside strings. A balanced object begins with its opening brace.
\<close>

fun net_depth :: "jsstring \<Rightarrow> int \<Rightarrow> bool \<Rightarrow> bool \<Rightarrow> int" where
  "net_depth [] depth inside escaped = depth"
| "net_depth (c # cs) depth inside escaped =
     (if escaped then net_depth cs depth inside False
      else if c = backslash then net_depth cs depth inside True
      else if c = dquote then net_depth cs depth (\<not> inside) False
      else if inside then net_depth cs depth inside False
      else if c = lbrace then net_depth cs (depth + 1) inside False
      else if c = rbrace then net_depth cs (depth - 1) inside False
      else net_depth cs depth inside False)"

definition balanced :: "jsstring \<Rightarrow> bool" where
  "balanced y = (y \<noteq> [] \<and> hd y = lbrace \<and> net_depth y 0 False False = 0)"

text \<open>
  Two well-formed JSON objects used as concrete inputs below. The first is
  \<^verbatim>\<open>{"a":"\"","b":{"c":"\""}}\<close>: two string values that each consist of one escaped
  quote, the second inside a nested object. The second is \<^verbatim>\<open>{"a":"\"}"}\<close>: one string
  value made of an escaped quote and a closing brace.
\<close>

definition escaped_quote_object :: jsstring where
  "escaped_quote_object =
     js ''{'' @ [dquote] @ js ''a'' @ [dquote] @ js '':'' @ [dquote, backslash, dquote, dquote] @
     js '','' @ [dquote] @ js ''b'' @ [dquote] @ js '':{'' @ [dquote] @ js ''c'' @ [dquote] @
     js '':'' @ [dquote, backslash, dquote, dquote] @ js ''}}''"

definition brace_in_string_object :: jsstring where
  "brace_in_string_object =
     js ''{'' @ [dquote] @ js ''a'' @ [dquote] @ js '':'' @
     [dquote, backslash, dquote, rbrace, dquote] @ js ''}''"

section \<open>Facts about the string operations\<close>

lemma lbrace_neq_rbrace: "lbrace \<noteq> rbrace" by (simp add: lbrace_def rbrace_def)
lemma lbrace_not_ws: "\<not> isWhiteSpace lbrace" by (simp add: isWhiteSpace_def lbrace_def)
lemma rbrace_not_ws: "\<not> isWhiteSpace rbrace" by (simp add: isWhiteSpace_def rbrace_def)

lemma indexOf_ge: "- 1 \<le> indexOf s c"
  by (induction s) auto

lemma indexOf_absent: "(indexOf s c = - 1) = (c \<notin> set s)"
proof (induction s)
  case Nil
  show ?case by simp
next
  case (Cons x xs)
  have "- 1 \<le> indexOf xs c" by (rule indexOf_ge)
  with Cons show ?case by auto
qed

lemma indexOf_append: "c \<notin> set pre \<Longrightarrow> indexOf (pre @ c # post) c = int (length pre)"
  by (induction pre) auto

lemma indexOf_split:
  assumes "c \<in> set s"
  shows "\<exists>pre post. s = pre @ c # post \<and> c \<notin> set pre \<and> indexOf s c = int (length pre)"
proof -
  from assms obtain pre post where "s = pre @ c # post" "c \<notin> set pre"
    by (auto dest: split_list_first)
  then show ?thesis using indexOf_append by blast
qed

lemma lastIndexOf_ge: "- 1 \<le> lastIndexOf s c"
  by (induction s) auto

lemma lastIndexOf_absent: "(lastIndexOf s c = - 1) = (c \<notin> set s)"
proof (induction s)
  case Nil
  show ?case by simp
next
  case (Cons x xs)
  have "- 1 \<le> lastIndexOf xs c" by (rule lastIndexOf_ge)
  with Cons show ?case by auto
qed

lemma lastIndexOf_append: "c \<notin> set post \<Longrightarrow> lastIndexOf (pre @ c # post) c = int (length pre)"
proof (induction pre)
  case Nil
  then show ?case by (simp add: lastIndexOf_absent)
next
  case (Cons x xs)
  then show ?case by simp
qed

lemma lastIndexOf_split:
  assumes "c \<in> set s"
  shows "\<exists>pre post. s = pre @ c # post \<and> c \<notin> set post \<and> lastIndexOf s c = int (length pre)"
proof -
  from assms obtain pre post where "s = pre @ c # post" "c \<notin> set post"
    by (auto dest: split_list_last)
  then show ?thesis using lastIndexOf_append by blast
qed

lemma end_index_Suc: "end_index i (map_option Suc r) = end_index (Suc i) r"
  by (cases r) (simp_all add: end_index_def)

lemma end_index_Some0: "end_index i (Some 0) = int i"
  by (simp add: end_index_def)

lemma scan_eq:
  "i \<le> length s \<Longrightarrow> scan s (int i) d q False = Some (end_index i (scan_list (drop i s) d q))"
proof (induction "length s - i" arbitrary: i d q)
  case 0
  then have "drop i s = []" by simp
  moreover from 0 have "\<not> int i < int (length s)" by simp
  ultimately show ?case by (subst scan.simps) (simp add: end_index_def)
next
  case (Suc n)
  then have lt: "i < length s" by simp
  then have dr: "drop i s = s ! i # drop (Suc i) s" by (simp add: Cons_nth_drop_Suc)
  have ih: "scan s (int i + 1) d' q' False = Some (end_index (Suc i) (scan_list (drop (Suc i) s) d' q'))" for d' q'
    using Suc.hyps(1) [of "Suc i" d' q'] Suc.hyps(2) lt by (simp add: add.commute)
  show ?case
    by (subst scan.simps) (simp add: lt dr ih end_index_Suc end_index_Some0)
qed

lemma scan_list_Some:
  "scan_list xs d q = Some k \<Longrightarrow> k < length xs \<and> xs ! k = rbrace"
proof (induction xs arbitrary: d q k)
  case Nil
  then show ?case by simp
next
  case (Cons c cs)
  then show ?case by (auto split: if_splits)
qed

lemma scan_list_take:
  "scan_list xs d q = Some k \<Longrightarrow> scan_list (take (Suc k) xs) d q = Some k"
proof (induction xs arbitrary: d q k)
  case Nil
  then show ?case by simp
next
  case (Cons c cs)
  then show ?case by (auto split: if_splits)
qed

lemma scan_list_prefix_None:
  "scan_list (xs @ ys) d q = None \<Longrightarrow> scan_list xs d q = None"
proof (induction xs arbitrary: d q)
  case Nil
  then show ?case by simp
next
  case (Cons c cs)
  then show ?case by (auto split: if_splits)
qed

lemma scan_list_no_rbrace:
  "rbrace \<notin> set xs \<Longrightarrow> scan_list xs d q = None"
  by (induction xs arbitrary: d q) auto

lemma trim_subset: "set (trim s) \<subseteq> set s"
proof -
  have "set (trim s) \<subseteq> set (dropWhile isWhiteSpace s)"
    unfolding trim_def using set_dropWhileD by fastforce
  also have "\<dots> \<subseteq> set s" using set_dropWhileD by fastforce
  finally show ?thesis .
qed

lemma trim_id:
  assumes "s \<noteq> []" "\<not> isWhiteSpace (hd s)" "\<not> isWhiteSpace (last s)"
  shows "trim s = s"
proof -
  from assms have a: "dropWhile isWhiteSpace s = s" by (cases s) auto
  from assms have "rev s \<noteq> []" "\<not> isWhiteSpace (hd (rev s))" by (simp_all add: hd_rev)
  then have "dropWhile isWhiteSpace (rev s) = rev s" by (cases "rev s") auto
  with a show ?thesis by (simp add: trim_def)
qed

lemma trim_ends:
  assumes "trim s \<noteq> []"
  shows "\<not> isWhiteSpace (hd (trim s)) \<and> \<not> isWhiteSpace (last (trim s))"
proof -
  define a where "a = dropWhile isWhiteSpace s"
  define b where "b = dropWhile isWhiteSpace (rev a)"
  have t: "trim s = rev b" by (simp add: trim_def a_def b_def)
  with assms have b: "b \<noteq> []" by simp
  then have hdb: "\<not> isWhiteSpace (hd b)" unfolding b_def by (rule hd_dropWhile)
  have "rev a = takeWhile isWhiteSpace (rev a) @ b" by (simp add: b_def)
  then have a: "a = rev b @ rev (takeWhile isWhiteSpace (rev a))"
    by (metis rev_append rev_rev_ident)
  with b have "a \<noteq> []" by (metis append_is_Nil_conv rev_is_Nil_conv)
  then have "\<not> isWhiteSpace (hd a)" unfolding a_def by (rule hd_dropWhile)
  moreover from a b have "hd a = hd (rev b)" by (metis hd_append2 rev_is_Nil_conv)
  ultimately have "\<not> isWhiteSpace (hd (rev b))" by simp
  moreover from hdb b have "\<not> isWhiteSpace (last (rev b))" by (simp add: last_rev)
  ultimately show ?thesis by (simp add: t)
qed

lemma trim_Nil: "trim [] = []"
  by (simp add: trim_def)

lemma trim_trim: "trim (trim s) = trim s"
proof (cases "trim s = []")
  case True
  then show ?thesis by (simp add: trim_Nil)
next
  case False
  with trim_ends [OF False] show ?thesis by (simp add: trim_id)
qed

lemma trim_decomp:
  "\<exists>l r. s = l @ trim s @ r \<and> list_all isWhiteSpace l \<and> list_all isWhiteSpace r"
proof -
  let ?l = "takeWhile isWhiteSpace s"
  let ?a = "dropWhile isWhiteSpace s"
  let ?r = "takeWhile isWhiteSpace (rev ?a)"
  have "rev ?a = ?r @ dropWhile isWhiteSpace (rev ?a)" by simp
  then have "?a = trim s @ rev ?r" unfolding trim_def by (metis rev_append rev_rev_ident)
  then have "s = ?l @ trim s @ rev ?r" by (metis takeWhile_dropWhile_id)
  moreover have "list_all isWhiteSpace ?l" by (simp add: list_all_iff) (metis set_takeWhileD)
  moreover have "list_all isWhiteSpace (rev ?r)" by (simp add: list_all_iff) (metis set_takeWhileD)
  ultimately show ?thesis by blast
qed

lemma substring_ordered:
  "a \<le> b \<Longrightarrow> b \<le> length s \<Longrightarrow> substring s (int a) (int b) = take (b - a) (drop a s)"
  by (simp add: substring_def Let_def min_def max_def nat_diff_distrib')

lemma substring_swapped:
  "b \<le> a \<Longrightarrow> a \<le> length s \<Longrightarrow> substring s (int a) (int b) = take (a - b) (drop b s)"
  by (simp add: substring_def Let_def min_def max_def nat_diff_distrib')

lemma substring_sublist: "sublist (substring s a b) s"
proof -
  have "sublist (take n (drop m s)) s" for n m
  proof -
    have "s = take m s @ take n (drop m s) @ drop n (drop m s)"
      by (metis append_take_drop_id)
    then show ?thesis unfolding sublist_def by blast
  qed
  then show ?thesis by (simp add: substring_def Let_def)
qed

section \<open>The loop and the cases of the extractor\<close>

lemma extractJson_no_lbrace:
  "lbrace \<notin> set (trim x) \<Longrightarrow> extractJson x = Some (trim x)"
  by (simp add: extractJson_def indexOf_absent)

lemma end_index_None: "end_index i None = - 1"
  by (simp add: end_index_def)

lemma end_index_Some: "end_index i (Some k) = int (i + k)"
  by (simp add: end_index_def)

lemma scan_at_first:
  assumes t: "t = pre @ lbrace # rest"
  shows "scan t (int (length pre)) 0 False False =
           Some (end_index (length pre) (scan_list (lbrace # rest) 0 False))"
proof -
  have "length pre \<le> length t" by (simp add: t)
  then have "scan t (int (length pre)) 0 False False =
           Some (end_index (length pre) (scan_list (drop (length pre) t) 0 False))"
    by (rule scan_eq)
  then show ?thesis by (simp add: t)
qed

lemma extractJson_found:
  assumes t: "trim x = pre @ lbrace # rest" and pre: "lbrace \<notin> set pre"
    and k: "scan_list (lbrace # rest) 0 False = Some k"
  shows "extractJson x = Some (take (Suc k) (lbrace # rest))"
proof -
  have f: "indexOf (trim x) lbrace = int (length pre)"
    unfolding t using pre by (rule indexOf_append)
  have s: "scan (trim x) (int (length pre)) 0 False False = Some (int (length pre + k))"
    using scan_at_first [OF t] k by (simp add: end_index_Some)
  from scan_list_Some [OF k] have "k < length (lbrace # rest)" by simp
  then have le: "length pre + k + 1 \<le> length (trim x)" by (simp add: t)
  have "substring (trim x) (int (length pre)) (int (length pre + k + 1)) =
          take (length pre + k + 1 - length pre) (drop (length pre) (trim x))"
    using le by (intro substring_ordered) simp_all
  also have "\<dots> = take (Suc k) (lbrace # rest)" by (simp add: t)
  finally have sub: "substring (trim x) (int (length pre)) (int (length pre + k) + 1) =
      take (Suc k) (lbrace # rest)" by (simp add: add.commute)
  show ?thesis
    unfolding extractJson_def Let_def f s using sub by simp
qed

lemma extractJson_fallback:
  assumes t: "trim x = pre @ lbrace # rest" and pre: "lbrace \<notin> set pre"
    and k: "scan_list (lbrace # rest) 0 False = None"
  shows "extractJson x =
     Some (if rbrace \<in> set (trim x)
           then substring (trim x) (int (length pre)) (lastIndexOf (trim x) rbrace + 1)
           else trim x)"
proof -
  have f: "indexOf (trim x) lbrace = int (length pre)"
    unfolding t using pre by (rule indexOf_append)
  have s: "scan (trim x) (int (length pre)) 0 False False = Some (- 1)"
    using scan_at_first [OF t] k by (simp add: end_index_None)
  show ?thesis
    unfolding extractJson_def Let_def f s by (simp add: lastIndexOf_absent)
qed

lemma extractJson_cases [case_names no_lbrace found no_rbrace last_rbrace]:
  obtains
    "lbrace \<notin> set (trim x)" "extractJson x = Some (trim x)"
  | pre rest k where "trim x = pre @ lbrace # rest" "lbrace \<notin> set pre"
      "scan_list (lbrace # rest) 0 False = Some k"
      "extractJson x = Some (take (Suc k) (lbrace # rest))"
  | pre rest where "trim x = pre @ lbrace # rest" "lbrace \<notin> set pre"
      "scan_list (lbrace # rest) 0 False = None" "rbrace \<notin> set (trim x)"
      "extractJson x = Some (trim x)"
  | pre rest where "trim x = pre @ lbrace # rest" "lbrace \<notin> set pre"
      "scan_list (lbrace # rest) 0 False = None" "rbrace \<in> set (trim x)"
      "extractJson x = Some (substring (trim x) (int (length pre)) (lastIndexOf (trim x) rbrace + 1))"
proof (cases "lbrace \<in> set (trim x)")
  case False
  then show ?thesis using that(1) by (simp add: extractJson_no_lbrace)
next
  case True
  then obtain pre rest where t: "trim x = pre @ lbrace # rest" and pre: "lbrace \<notin> set pre"
    by (auto dest: split_list_first)
  show ?thesis
  proof (cases "scan_list (lbrace # rest) 0 False")
    case (Some k)
    with t pre show ?thesis using that(2) by (simp add: extractJson_found)
  next
    case None
    show ?thesis
    proof (cases "rbrace \<in> set (trim x)")
      case True
      with extractJson_fallback [OF t pre None] show ?thesis using that(4) [OF t pre None] by simp
    next
      case False
      with extractJson_fallback [OF t pre None] show ?thesis using that(3) [OF t pre None] by simp
    qed
  qed
qed


lemma ordered_shape:
  assumes t: "t = pre @ lbrace # rest" and t2: "t = p2 @ rbrace # post2"
    and lt: "length pre < length p2"
  shows "\<exists>mid. rest = mid @ rbrace # post2 \<and>
           substring t (int (length pre)) (int (length p2) + 1) = lbrace # mid @ [rbrace]"
proof -
  from t t2 have "pre @ lbrace # rest = p2 @ rbrace # post2" by simp
  then obtain us where "pre @ us = p2 \<and> lbrace # rest = us @ rbrace # post2 \<or>
                        pre = p2 @ us \<and> us @ lbrace # rest = rbrace # post2"
    by (auto simp: append_eq_append_conv2)
  with lt have us: "pre @ us = p2" "lbrace # rest = us @ rbrace # post2" by auto
  with lt obtain mid where mid: "us = lbrace # mid" by (cases us) auto
  with us have rest: "rest = mid @ rbrace # post2" by simp
  have le: "length p2 + 1 \<le> length t" by (simp add: t2)
  have "substring t (int (length pre)) (int (length p2 + 1)) =
          take (length p2 + 1 - length pre) (drop (length pre) t)"
    using lt le by (intro substring_ordered) simp_all
  also have "\<dots> = take (length p2 + 1 - length pre) (lbrace # mid @ rbrace # post2)"
    by (simp add: t rest)
  also have "length p2 + 1 - length pre = length (lbrace # mid @ [rbrace])"
    using us(1) mid by auto
  also have "take (length (lbrace # mid @ [rbrace])) (lbrace # mid @ rbrace # post2) =
               lbrace # mid @ [rbrace]"
    by simp
  finally have "substring t (int (length pre)) (int (length p2) + 1) = lbrace # mid @ [rbrace]"
    by (simp add: add.commute)
  with rest show ?thesis by blast
qed

lemma swapped_shape:
  assumes t: "t = pre @ lbrace # rest" and t2: "t = p2 @ rbrace # post2"
    and lt: "length p2 < length pre"
  shows "\<exists>mid. pre = p2 @ rbrace # mid \<and> post2 = mid @ lbrace # rest \<and>
           substring t (int (length pre)) (int (length p2) + 1) = mid"
proof -
  from t t2 have "p2 @ rbrace # post2 = pre @ lbrace # rest" by simp
  then obtain us where "p2 @ us = pre \<and> rbrace # post2 = us @ lbrace # rest \<or>
                        p2 = pre @ us \<and> us @ rbrace # post2 = lbrace # rest"
    by (auto simp: append_eq_append_conv2)
  with lt have us: "p2 @ us = pre" "rbrace # post2 = us @ lbrace # rest" by auto
  with lt obtain mid where mid: "us = rbrace # mid" by (cases us) auto
  with us have pre: "pre = p2 @ rbrace # mid" and post2: "post2 = mid @ lbrace # rest" by simp_all
  have le: "length pre \<le> length t" by (simp add: t)
  have "substring t (int (length pre)) (int (length p2 + 1)) =
          take (length pre - (length p2 + 1)) (drop (length p2 + 1) t)"
    using lt le by (intro substring_swapped) simp_all
  also have "\<dots> = take (length pre - (length p2 + 1)) (mid @ lbrace # rest)"
    by (simp add: t2 post2)
  also have "length pre - (length p2 + 1) = length mid"
    by (simp add: pre)
  finally have "substring t (int (length pre)) (int (length p2) + 1) = mid"
    by (simp add: add.commute)
  with pre post2 show ?thesis by blast
qed

lemma extractJson_fixed_lbrace_rbrace:
  assumes none: "scan_list (lbrace # mid @ [rbrace]) 0 False = None"
  shows "extractJson (lbrace # mid @ [rbrace]) = Some (lbrace # mid @ [rbrace])"
proof -
  let ?y = "lbrace # mid @ [rbrace]"
  have tr: "trim ?y = [] @ lbrace # (mid @ [rbrace])"
    by (simp add: trim_id lbrace_not_ws rbrace_not_ws)
  have l: "lastIndexOf ?y rbrace = int (length (lbrace # mid))"
    using lastIndexOf_append [of rbrace "[]" "lbrace # mid"] by simp
  have "extractJson ?y = Some (substring ?y 0 (int (length (lbrace # mid)) + 1))"
    using extractJson_fallback [OF tr _ none] tr l by simp
  moreover have "substring ?y 0 (int (length (lbrace # mid)) + 1) = ?y"
    by (simp add: substring_def Let_def)
  ultimately show ?thesis by simp
qed

lemma last_take_Suc: "k < length xs \<Longrightarrow> last (take (Suc k) xs) = xs ! k"
  by (simp add: take_Suc_conv_app_nth)

lemma extractJson_idem_lbrace:
  assumes y: "extractJson x = Some y" and lb: "lbrace \<in> set y"
  shows "extractJson y = Some y"
proof (cases x rule: extractJson_cases)
  case no_lbrace
  with y lb show ?thesis by simp
next
  case (found pre rest k)
  let ?xs = "lbrace # rest"
  from found(4) y have yk: "y = take (Suc k) ?xs" by simp
  from scan_list_Some [OF found(3)] have k: "k < length ?xs" "?xs ! k = rbrace" by simp_all
  have yne: "y \<noteq> []" by (simp add: yk)
  have hd: "hd y = lbrace" by (simp add: yk)
  have "last y = ?xs ! k" unfolding yk using k(1) by (rule last_take_Suc)
  with k(2) have last: "last y = rbrace" by simp
  have tr: "trim y = y" using yne hd last by (simp add: trim_id lbrace_not_ws rbrace_not_ws)
  have yk2: "y = lbrace # take k rest" by (simp add: yk)
  have y2: "trim y = [] @ lbrace # take k rest" using tr yk2 by simp
  have "scan_list (lbrace # take k rest) 0 False = Some k"
    using scan_list_take [OF found(3)] by simp
  from extractJson_found [OF y2 _ this] have "extractJson y = Some (take (Suc k) (lbrace # take k rest))"
    by simp
  then show ?thesis by (simp add: yk)
next
  case (no_rbrace pre rest)
  from no_rbrace(5) y have yt: "y = trim x" by simp
  have tt: "trim y = pre @ lbrace # rest" unfolding yt trim_trim by (rule no_rbrace(1))
  have "rbrace \<notin> set (trim y)" unfolding yt trim_trim by (rule no_rbrace(4))
  with extractJson_fallback [OF tt no_rbrace(2) no_rbrace(3)]
  show ?thesis by (simp add: yt trim_trim)
next
  case (last_rbrace pre rest)
  from lastIndexOf_split [OF last_rbrace(4)] obtain p2 post2 where
    t2: "trim x = p2 @ rbrace # post2" and post2: "rbrace \<notin> set post2"
    and l: "lastIndexOf (trim x) rbrace = int (length p2)" by blast
  from last_rbrace(5) y l have ys: "y = substring (trim x) (int (length pre)) (int (length p2) + 1)"
    by simp
  have "length pre \<noteq> length p2"
  proof
    assume "length pre = length p2"
    with last_rbrace(1) t2 have "lbrace = rbrace" by (metis append_eq_append_conv list.inject)
    then show False by (simp add: lbrace_neq_rbrace)
  qed
  then consider "length p2 < length pre" | "length pre < length p2" by linarith
  then show ?thesis
  proof cases
    case 1
    from swapped_shape [OF last_rbrace(1) t2 1] obtain mid where
      pm: "pre = p2 @ rbrace # mid"
      and sm: "substring (trim x) (int (length pre)) (int (length p2) + 1) = mid" by blast
    from ys sm have "y = mid" by simp
    with last_rbrace(2) pm have "lbrace \<notin> set y" by simp
    with lb show ?thesis by simp
  next
    case 2
    from ordered_shape [OF last_rbrace(1) t2 2] obtain mid where
      rest: "rest = mid @ rbrace # post2"
      and sm: "substring (trim x) (int (length pre)) (int (length p2) + 1) = lbrace # mid @ [rbrace]"
      by blast
    from ys sm have ym: "y = lbrace # mid @ [rbrace]" by simp
    have "scan_list ((lbrace # mid @ [rbrace]) @ post2) 0 False = None"
      using last_rbrace(3) by (simp add: rest)
    then have "scan_list (lbrace # mid @ [rbrace]) 0 False = None"
      by (rule scan_list_prefix_None)
    then show ?thesis unfolding ym by (rule extractJson_fixed_lbrace_rbrace)
  qed
qed

section \<open>Claims about the extractor\<close>

subsection \<open>Escaped quotes and braces inside strings\<close>

text \<open>
  The escape test of the loop compares a string of one code unit with a string of two, so
  it never succeeds, and the escape flag stays clear from the first iteration on.
\<close>

lemma escape_test_never_true: "[c] \<noteq> [backslash, backslash]"
  by simp

text \<open>
  C1. For every well-formed JSON object whose string values contain an escaped quote,
  \<open>extractJson\<close> returns exactly that object, an escaped quote never toggling the string
  state. The code does not do this: on the object \<open>escaped_quote_object\<close> each escaped
  quote toggles the state, the braces of the nested object are read as string content,
  and the scan stops at the closing brace of the nested object. The result is the input
  without its last code unit.
\<close>

theorem escaped_quote_toggles_string_state:
  "extractJson escaped_quote_object = Some (butlast escaped_quote_object) \<and>
   butlast escaped_quote_object \<noteq> escaped_quote_object \<and>
   scan escaped_quote_object 0 0 False False = Some (int (length escaped_quote_object) - 2)"
  by code_simp

text \<open>
  C2. For every well-formed JSON object whose string values contain literal braces,
  \<open>extractJson\<close> returns exactly that object, braces inside strings leaving the depth
  counter alone. The code does not do this when such a string also holds an escaped quote:
  on \<open>brace_in_string_object\<close> the escaped quote ends the string for the scanner, the
  closing brace that follows it inside the string value is counted, and the result stops
  there, two code units short.
\<close>

theorem brace_in_string_counted_after_escaped_quote:
  "extractJson brace_in_string_object = Some (butlast (butlast brace_in_string_object)) \<and>
   butlast (butlast brace_in_string_object) \<noteq> brace_in_string_object"
  by code_simp

text \<open>
  C3. For every well-formed JSON object \<open>X\<close> and all prose without braces around it,
  \<open>extractJson\<close> returns exactly \<open>X\<close>. The code does not do this for
  \<open>escaped_quote_object\<close> between two pieces of prose: the result lacks the last closing
  brace of the object.
\<close>

theorem object_in_prose_cut_short:
  "extractJson (js ''Result: '' @ escaped_quote_object @ js '' Done.'') =
     Some (butlast escaped_quote_object) \<and>
   lbrace \<notin> set (js ''Result: '') \<and> rbrace \<notin> set (js ''Result: '') \<and>
   lbrace \<notin> set (js '' Done.'') \<and> rbrace \<notin> set (js '' Done.'') \<and>
   butlast escaped_quote_object \<noteq> escaped_quote_object"
  by code_simp

subsection \<open>The fallback\<close>

text \<open>
  C4, as stated: whenever the scan from the first opening brace ends without the depth
  returning to zero and the trimmed text holds a closing brace, the result is the part
  of the trimmed text from the first opening brace through the last closing brace. This
  fails on the input \<^verbatim>\<open>} {\<close>, where the last closing brace precedes the first opening
  brace: the result is the single space between them.
\<close>

theorem fallback_first_through_last_counterexample:
  "indexOf (trim (js ''} {'')) lbrace \<noteq> - 1 \<and>
   scan (trim (js ''} {'')) (indexOf (trim (js ''} {'')) lbrace) 0 False False = Some (- 1) \<and>
   rbrace \<in> set (trim (js ''} {'')) \<and>
   extractJson (js ''} {'') = Some (js '' '') \<and>
   extractJson (js ''} {'') \<noteq>
     Some (slice (trim (js ''} {'')) (indexOf (trim (js ''} {'')) lbrace)
            (lastIndexOf (trim (js ''} {'')) rbrace + 1))"
  by code_simp

text \<open>
  C4, amended: whenever the scan from the first opening brace ends without the depth
  returning to zero and the last closing brace of the trimmed text lies after the first
  opening brace, the result is the part of the trimmed text from the first opening brace
  through the last closing brace; it begins with that opening brace and ends with that
  closing brace.
\<close>

theorem fallback_first_through_last:
  assumes f: "indexOf (trim x) lbrace \<noteq> - 1"
    and s: "scan (trim x) (indexOf (trim x) lbrace) 0 False False = Some (- 1)"
    and fl: "indexOf (trim x) lbrace < lastIndexOf (trim x) rbrace"
  shows "extractJson x =
           Some (slice (trim x) (indexOf (trim x) lbrace) (lastIndexOf (trim x) rbrace + 1)) \<and>
         hd (slice (trim x) (indexOf (trim x) lbrace) (lastIndexOf (trim x) rbrace + 1)) = lbrace \<and>
         last (slice (trim x) (indexOf (trim x) lbrace) (lastIndexOf (trim x) rbrace + 1)) = rbrace"
proof -
  from f have "lbrace \<in> set (trim x)" by (simp add: indexOf_absent)
  from indexOf_split [OF this] obtain pre rest where
    t: "trim x = pre @ lbrace # rest" and fi: "indexOf (trim x) lbrace = int (length pre)"
    by blast
  have "- 1 \<le> indexOf (trim x) lbrace" by (rule indexOf_ge)
  with fl have l: "lastIndexOf (trim x) rbrace \<noteq> - 1" by simp
  then have "rbrace \<in> set (trim x)" by (simp add: lastIndexOf_absent)
  from lastIndexOf_split [OF this] obtain p2 post2 where
    t2: "trim x = p2 @ rbrace # post2" and li: "lastIndexOf (trim x) rbrace = int (length p2)"
    by blast
  from fl fi li have lt: "length pre < length p2" by simp
  from ordered_shape [OF t t2 lt] obtain mid where
    sub: "substring (trim x) (int (length pre)) (int (length p2) + 1) = lbrace # mid @ [rbrace]"
    by blast
  have "slice (trim x) (int (length pre)) (int (length p2) + 1) =
          take (length p2 + 1 - length pre) (drop (length pre) (trim x))"
    using lt by (simp add: slice_def nat_diff_distrib' nat_add_distrib)
  also have "\<dots> = substring (trim x) (int (length pre)) (int (length p2 + 1))"
    using lt by (intro substring_ordered [symmetric]) (simp_all add: t2)
  finally have sl: "slice (trim x) (int (length pre)) (int (length p2) + 1) = lbrace # mid @ [rbrace]"
    using sub by (simp add: add.commute)
  have "extractJson x = Some (substring (trim x) (int (length pre)) (int (length p2) + 1))"
    using f s l unfolding extractJson_def Let_def fi li by simp
  with sub sl show ?thesis by (simp add: fi li)
qed

theorem fallback_first_through_last_witness:
  "extractJson (js ''x {{a} y'') = Some (js ''{{a}'')"
proof -
  have f: "indexOf (trim (js ''x {{a} y'')) lbrace \<noteq> - 1" by code_simp
  have s: "scan (trim (js ''x {{a} y'')) (indexOf (trim (js ''x {{a} y'')) lbrace) 0 False False
             = Some (- 1)" by code_simp
  have fl: "indexOf (trim (js ''x {{a} y'')) lbrace < lastIndexOf (trim (js ''x {{a} y'')) rbrace"
    by code_simp
  have e: "slice (trim (js ''x {{a} y'')) (indexOf (trim (js ''x {{a} y'')) lbrace)
             (lastIndexOf (trim (js ''x {{a} y'')) rbrace + 1) = js ''{{a}''" by code_simp
  from fallback_first_through_last [OF f s fl] e show ?thesis by simp
qed

text \<open>
  C5, as stated: whenever the scan from the first opening brace ends without the depth
  returning to zero and the trimmed text holds no closing brace, the result is the text
  from the first opening brace to the end of the input. This fails on the input
  \<^verbatim>\<open>a{\<close>: the result is the whole input, with the \<^verbatim>\<open>a\<close> before the brace.
\<close>

theorem fallback_no_closing_brace_counterexample:
  "indexOf (trim (js ''a{'')) lbrace \<noteq> - 1 \<and>
   scan (trim (js ''a{'')) (indexOf (trim (js ''a{'')) lbrace) 0 False False = Some (- 1) \<and>
   rbrace \<notin> set (trim (js ''a{'')) \<and>
   extractJson (js ''a{'') = Some (js ''a{'') \<and>
   extractJson (js ''a{'') \<noteq>
     Some (slice (trim (js ''a{'')) (indexOf (trim (js ''a{'')) lbrace)
            (int (length (trim (js ''a{'')))))"
  by code_simp

text \<open>
  C5, amended: whenever the scan from the first opening brace ends without the depth
  returning to zero and the trimmed text holds no closing brace, the result is the whole
  trimmed text, unchanged.
\<close>

theorem fallback_no_closing_brace:
  assumes f: "indexOf (trim x) lbrace \<noteq> - 1"
    and s: "scan (trim x) (indexOf (trim x) lbrace) 0 False False = Some (- 1)"
    and r: "rbrace \<notin> set (trim x)"
  shows "extractJson x = Some (trim x)"
proof -
  from r have "lastIndexOf (trim x) rbrace = - 1" by (simp add: lastIndexOf_absent)
  with f s show ?thesis unfolding extractJson_def Let_def by simp
qed

theorem fallback_no_closing_brace_witness:
  "extractJson (js '' a{b '') = Some (js ''a{b'')"
proof -
  have f: "indexOf (trim (js '' a{b '')) lbrace \<noteq> - 1" by code_simp
  have s: "scan (trim (js '' a{b '')) (indexOf (trim (js '' a{b '')) lbrace) 0 False False
             = Some (- 1)" by code_simp
  have r: "rbrace \<notin> set (trim (js '' a{b ''))" by code_simp
  have e: "trim (js '' a{b '') = js ''a{b''" by code_simp
  from fallback_no_closing_brace [OF f s r] e show ?thesis by simp
qed

text \<open>
  C10. When the last closing brace of the trimmed text lies before the first opening
  brace, the scan finds no position of zero depth, and the result is the code units
  strictly between that closing brace and the first opening brace: \<open>substring\<close> swaps
  its arguments. The result holds no opening and no closing brace.
\<close>

theorem last_brace_before_first:
  assumes l: "lastIndexOf (trim x) rbrace \<noteq> - 1"
    and lf: "lastIndexOf (trim x) rbrace < indexOf (trim x) lbrace"
  shows "scan (trim x) (indexOf (trim x) lbrace) 0 False False = Some (- 1) \<and>
         extractJson x =
           Some (slice (trim x) (lastIndexOf (trim x) rbrace + 1) (indexOf (trim x) lbrace)) \<and>
         lbrace \<notin> set (slice (trim x) (lastIndexOf (trim x) rbrace + 1) (indexOf (trim x) lbrace)) \<and>
         rbrace \<notin> set (slice (trim x) (lastIndexOf (trim x) rbrace + 1) (indexOf (trim x) lbrace))"
proof -
  from l have "rbrace \<in> set (trim x)" by (simp add: lastIndexOf_absent)
  from lastIndexOf_split [OF this] obtain p2 post2 where
    t2: "trim x = p2 @ rbrace # post2" and p2: "rbrace \<notin> set post2"
    and li: "lastIndexOf (trim x) rbrace = int (length p2)" by blast
  have "- 1 \<le> lastIndexOf (trim x) rbrace" by (rule lastIndexOf_ge)
  with lf have f: "indexOf (trim x) lbrace \<noteq> - 1" by simp
  then have "lbrace \<in> set (trim x)" by (simp add: indexOf_absent)
  from indexOf_split [OF this] obtain pre rest where
    t: "trim x = pre @ lbrace # rest" and pre: "lbrace \<notin> set pre"
    and fi: "indexOf (trim x) lbrace = int (length pre)" by blast
  from lf fi li have lt: "length p2 < length pre" by simp
  from swapped_shape [OF t t2 lt] obtain mid where
    pm: "pre = p2 @ rbrace # mid" and pt: "post2 = mid @ lbrace # rest"
    and sub: "substring (trim x) (int (length pre)) (int (length p2) + 1) = mid" by blast
  have "slice (trim x) (int (length p2) + 1) (int (length pre)) =
          take (length mid) (drop (length p2 + 1) (trim x))"
    by (simp add: slice_def pm nat_add_distrib)
  also have "\<dots> = mid" by (simp add: t2 pt)
  finally have sl: "slice (trim x) (int (length p2) + 1) (int (length pre)) = mid" .
  from p2 pt have "rbrace \<notin> set (lbrace # rest)" by (simp add: lbrace_neq_rbrace [symmetric])
  then have none: "scan_list (lbrace # rest) 0 False = None" by (rule scan_list_no_rbrace)
  have sc: "scan (trim x) (int (length pre)) 0 False False = Some (- 1)"
    using scan_at_first [OF t] none by (simp add: end_index_None)
  have "extractJson x = Some mid"
    using f l sc sub unfolding extractJson_def Let_def fi li by simp
  moreover from pre pm have "lbrace \<notin> set mid" by simp
  moreover from p2 pt have "rbrace \<notin> set mid" by simp
  ultimately show ?thesis using sc sl by (simp add: fi li)
qed

theorem last_brace_before_first_witness:
  "extractJson (js ''x} y {z'') = Some (js '' y '')"
proof -
  have l: "lastIndexOf (trim (js ''x} y {z'')) rbrace \<noteq> - 1" by code_simp
  have lf: "lastIndexOf (trim (js ''x} y {z'')) rbrace < indexOf (trim (js ''x} y {z'')) lbrace"
    by code_simp
  have e: "slice (trim (js ''x} y {z'')) (lastIndexOf (trim (js ''x} y {z'')) rbrace + 1)
             (indexOf (trim (js ''x} y {z'')) lbrace) = js '' y ''" by code_simp
  from last_brace_before_first [OF l lf] e show ?thesis by simp
qed

subsection \<open>Inputs without an opening brace\<close>

text \<open>
  C6. For every input that holds no opening brace, \<open>extractJson\<close> returns the trimmed
  input: the input without the white space at its two ends, every other code unit kept
  in order.
\<close>

theorem no_opening_brace_returns_trimmed:
  assumes "lbrace \<notin> set x"
  shows "extractJson x = Some (trim x) \<and>
         (\<exists>l r. x = l @ trim x @ r \<and> list_all isWhiteSpace l \<and> list_all isWhiteSpace r) \<and>
         (trim x = [] \<or> (\<not> isWhiteSpace (hd (trim x)) \<and> \<not> isWhiteSpace (last (trim x))))"
proof -
  from assms trim_subset have "lbrace \<notin> set (trim x)" by blast
  then have "extractJson x = Some (trim x)" by (rule extractJson_no_lbrace)
  moreover note trim_decomp [of x]
  moreover have "trim x = [] \<or> (\<not> isWhiteSpace (hd (trim x)) \<and> \<not> isWhiteSpace (last (trim x)))"
    using trim_ends [of x] by blast
  ultimately show ?thesis by blast
qed

theorem no_opening_brace_returns_trimmed_witness:
  "extractJson (js ''  no json } here  '') = Some (js ''no json } here'')"
proof -
  have h: "lbrace \<notin> set (js ''  no json } here  '')" by code_simp
  have e: "trim (js ''  no json } here  '') = js ''no json } here''" by code_simp
  from no_opening_brace_returns_trimmed [OF h] e show ?thesis by simp
qed

subsection \<open>Properties of every call\<close>

text \<open>
  C7. Idempotence: when the result of \<open>extractJson\<close> is a balanced object, applying
  \<open>extractJson\<close> to it returns it unchanged.
\<close>

theorem extractJson_idempotent:
  assumes "extractJson x = Some y" and "balanced y"
  shows "extractJson y = Some y"
proof -
  from assms(2) have "y \<noteq> []" "hd y = lbrace" by (simp_all add: balanced_def)
  then have "lbrace \<in> set y" by (metis hd_in_set)
  with assms(1) show ?thesis by (rule extractJson_idem_lbrace)
qed

theorem extractJson_idempotent_witness:
  "extractJson (js ''ok: {{}} done'') = Some (js ''{{}}'') \<and>
   extractJson (js ''{{}}'') = Some (js ''{{}}'')"
proof -
  have h: "extractJson (js ''ok: {{}} done'') = Some (js ''{{}}'')" by code_simp
  have b: "balanced (js ''{{}}'')" by code_simp
  from extractJson_idempotent [OF h b] h show ?thesis by simp
qed

text \<open>
  C8. Totality: for every input, the empty string included, \<open>extractJson\<close> terminates and
  returns a string. The model has no error value because the source has no statement that
  throws: \<open>trim\<close>, \<open>indexOf\<close>, \<open>lastIndexOf\<close> and \<open>substring\<close> are defined on every string
  and every index, and the loop reads \<open>jsonString[i]\<close> only for \<open>i\<close> below the length.
\<close>

theorem extractJson_terminates: "\<exists>y. extractJson x = Some y"
  by (cases x rule: extractJson_cases) simp_all

text \<open>
  C9. For every input, the result of \<open>extractJson\<close> is a contiguous part of the trimmed
  input.
\<close>

theorem extractJson_sublist: "\<exists>y. extractJson x = Some y \<and> sublist y (trim x)"
proof (cases x rule: extractJson_cases)
  case (found pre rest k)
  have "trim x = pre @ take (Suc k) (lbrace # rest) @ drop (Suc k) (lbrace # rest)"
    unfolding found(1) by (metis append_take_drop_id)
  then have "sublist (take (Suc k) (lbrace # rest)) (trim x)"
    unfolding sublist_def by blast
  with found(4) show ?thesis by simp
next
  case (last_rbrace pre rest)
  then show ?thesis by (simp add: substring_sublist)
qed simp_all

end
